theory Spec2Isabelle
  imports Complex_Main
begin

section \<open>Strings and cells\<close>

text \<open>
  A Python \<open>str\<close> is a sequence of Unicode code points, and \<open>len\<close>, slicing and the
  regular expressions of the source all count code points. A string is therefore modelled
  as the list of its code points; \<open>lit\<close> turns an ASCII literal into that form.
\<close>

type_synonym pystr = "nat list"

definition lit :: "string \<Rightarrow> pystr" where
  "lit s = map of_char s"

text \<open>
  A cell of an extracted table is \<open>Optional[str]\<close>; a row is a list of cells and a raw
  table a list of rows, possibly of different lengths.
\<close>

type_synonym cell = "pystr option"
type_synonym row = "cell list"

text \<open>The test \<^verbatim>\<open>cell not in (None, "")\<close> of the source.\<close>

definition filled :: "cell \<Rightarrow> bool" where
  "filled c = (c \<noteq> None \<and> c \<noteq> Some [])"

section \<open>The row normalizer \<^verbatim>\<open>clean_table_data\<close>\<close>

text \<open>
  \<^verbatim>\<open>rows = [row for row in rows if any((cell not in (None, "")) for cell in row)]\<close>
\<close>

definition drop_empty_rows :: "row list \<Rightarrow> row list" where
  "drop_empty_rows rows = filter (\<lambda>row. list_ex filled row) rows"

text \<open>
  \<^verbatim>\<open>max_len = max(len(r) for r in rows)\<close>, taken by the source of a non-empty list only, and
  \<^verbatim>\<open>rows = [list(r) + [None] * (max_len - len(r)) for r in rows]\<close>.
\<close>

definition max_len :: "row list \<Rightarrow> nat" where
  "max_len rows = Max (set (map length rows))"

definition pad_rows :: "nat \<Rightarrow> row list \<Rightarrow> row list" where
  "pad_rows n rows = map (\<lambda>r. r @ replicate (n - length r) None) rows"

text \<open>
  The loop \<^verbatim>\<open>for c in range(max_len): if any(row[c] not in (None, "") ...): cols_to_keep.append(c)\<close>.
  It runs over the padded rows, so \<open>row ! c\<close> is always in range.
\<close>

definition cols_to_keep :: "nat \<Rightarrow> row list \<Rightarrow> nat list" where
  "cols_to_keep n rows = filter (\<lambda>c. list_ex (\<lambda>row. filled (row ! c)) rows) [0..<n]"

definition clean_table_data :: "row list \<Rightarrow> row list" where
  "clean_table_data rows =
     (if rows = [] then rows
      else
        let rows1 = drop_empty_rows rows in
        if rows1 = [] then rows1
        else
          let n = max_len rows1;
              rows2 = pad_rows n rows1;
              keep = cols_to_keep n rows2
          in map (\<lambda>row. map (\<lambda>c. row ! c) keep) rows2)"

text \<open>
  The notion the specification uses for the width of a normalized grid: the column
  indices below the longest original row at which some original row holds a non-empty,
  non-absent cell.
\<close>

definition surviving_columns :: "row list \<Rightarrow> nat list" where
  "surviving_columns rows =
     filter (\<lambda>c. \<exists>row \<in> set rows. c < length row \<and> filled (row ! c))
       [0..<Max (insert 0 (set (map length rows)))]"


text \<open>A ragged raw table with an empty row, an all-absent column and an empty-string cell.\<close>

definition ragged_table :: "row list" where
  "ragged_table =
     [[Some (lit ''a''), None, None],
      [None, Some []],
      [],
      [Some [], None, Some (lit ''b''), None]]"

section \<open>The sheet namer \<^verbatim>\<open>sanitize_sheet_name\<close>\<close>

text \<open>
  The characters \<^verbatim>\<open>: \ / ? * [ ]\<close> of the class \<^verbatim>\<open>[:\\/\?\*\[\]]\<close>, by code point.
\<close>

definition forbidden :: "nat \<Rightarrow> bool" where
  "forbidden c = (c \<in> {58, 92, 47, 63, 42, 91, 93})"

text \<open>
  The code points that Python's \<^verbatim>\<open>\s\<close> (on a \<open>str\<close> pattern), \<^verbatim>\<open>str.isspace\<close> and
  \<^verbatim>\<open>str.strip()\<close> treat as whitespace.
\<close>

definition is_space :: "nat \<Rightarrow> bool" where
  "is_space c =
     (c \<in> {9, 10, 11, 12, 13, 28, 29, 30, 31, 32, 133, 160, 5760, 8232, 8233, 8239, 8287, 12288}
      \<or> (8192 \<le> c \<and> c \<le> 8202))"

text \<open>\<^verbatim>\<open>re.sub(r'[:\\/\?\*\[\]]', ' ', name)\<close>: every forbidden character becomes a space.\<close>

definition replace_forbidden :: "pystr \<Rightarrow> pystr" where
  "replace_forbidden name = map (\<lambda>c. if forbidden c then 32 else c) name"

text \<open>\<^verbatim>\<open>re.sub(r'\s+', ' ', name)\<close>: every maximal run of whitespace becomes one space.\<close>

function collapse_ws :: "pystr \<Rightarrow> pystr" where
  "collapse_ws [] = []"
| "collapse_ws (c # cs) =
     (if is_space c then 32 # collapse_ws (dropWhile is_space cs) else c # collapse_ws cs)"
  by pat_completeness auto
termination
  by (relation "measure length") (auto simp: length_dropWhile_le less_Suc_eq_le)

text \<open>\<^verbatim>\<open>str.strip()\<close>: leading and trailing whitespace is removed.\<close>

definition strip :: "pystr \<Rightarrow> pystr" where
  "strip s = rev (dropWhile is_space (rev (dropWhile is_space s)))"

text \<open>\<^verbatim>\<open>return name[:31] if name else "Sheet"\<close> after the two substitutions and the strip.\<close>

definition sanitize_sheet_name :: "pystr \<Rightarrow> pystr" where
  "sanitize_sheet_name name =
     (let name1 = replace_forbidden name;
          name2 = strip (collapse_ws name1)
      in if name2 \<noteq> [] then take 31 name2 else lit ''Sheet'')"

text \<open>\<^verbatim>\<open>str(n)\<close> of a non-negative integer: its decimal digits.\<close>

fun str_nat :: "nat \<Rightarrow> pystr" where
  "str_nat n = (if n < 10 then [48 + n] else str_nat (n div 10) @ [48 + n mod 10])"

declare str_nat.simps [simp del]

text \<open>
  The loop that avoids duplicate sheet names:
  \<^verbatim>\<open>while sheet in writer.book.sheetnames: sheet = sanitize_sheet_name(f"{base}_{suffix}"); suffix += 1\<close>.
  The loop has no bound in the source, so not returning is the value \<open>None\<close>.
\<close>

partial_function (option) unique_sheet :: "pystr list \<Rightarrow> pystr \<Rightarrow> pystr \<Rightarrow> nat \<Rightarrow> pystr option" where
  "unique_sheet sheetnames base sheet suffix =
     (if sheet \<in> set sheetnames
      then unique_sheet sheetnames base
             (sanitize_sheet_name (base @ lit ''_'' @ str_nat suffix)) (suffix + 1)
      else Some sheet)"

declare unique_sheet.simps [code]

text \<open>
  Lines 124 to 130 of the source: the candidate is sanitized, the result is kept as
  \<open>base\<close>, and the loop starts with the suffix 2.
\<close>

definition unique_name :: "pystr list \<Rightarrow> pystr \<Rightarrow> pystr option" where
  "unique_name sheetnames candidate =
     (let sheet = sanitize_sheet_name candidate;
          base = sheet
      in unique_sheet sheetnames base sheet 2)"


section \<open>The header inferencer \<^verbatim>\<open>infer_header_row\<close>\<close>

text \<open>
  \<^verbatim>\<open>is_number(x)\<close> succeeds when \<^verbatim>\<open>float(str(x).replace(",", ""))\<close> does not raise. Which
  strings Python's \<open>float\<close> accepts is a property of the language's library, not of this
  program, so the acceptance test is a parameter \<open>parses\<close> of the model. \<open>str\<close> of an
  absent cell is the text \<^verbatim>\<open>None\<close>.
\<close>

definition py_str :: "cell \<Rightarrow> pystr" where
  "py_str x = (case x of None \<Rightarrow> lit ''None'' | Some s \<Rightarrow> s)"

definition remove_commas :: "pystr \<Rightarrow> pystr" where
  "remove_commas s = filter (\<lambda>c. c \<noteq> 44) s"

definition is_number :: "(pystr \<Rightarrow> bool) \<Rightarrow> cell \<Rightarrow> bool" where
  "is_number parses x = parses (remove_commas (py_str x))"

text \<open>
  The source compares the quotient \<^verbatim>\<open>sum(...) / max(1, len(remaining))\<close> with \<^verbatim>\<open>0.15\<close> in
  binary floating point. The quotient of two integers is correctly rounded, so for a pool
  of fewer than \<open>2^50\<close> cells the comparison agrees with the exact comparison with
  \<open>15/100\<close>, which is what the model computes, over the rationals.
\<close>

definition infer_header_row :: "(pystr \<Rightarrow> bool) \<Rightarrow> row list \<Rightarrow> nat option" where
  "infer_header_row parses rows =
     (if rows = [] \<or> rows ! 0 = [] then None
      else
        let first = rows ! 0;
            first_all_str = list_all (\<lambda>x. x = None \<or> \<not> is_number parses x) first
        in if \<not> first_all_str then None
           else
             let remaining = filter filled (concat (drop 1 rows));
                 numeric_ratio =
                   (of_nat (length (filter (is_number parses) remaining)) :: rat)
                     / of_nat (max 1 (length remaining))
             in if numeric_ratio > 15 / 100 then Some 0 else None)"


text \<open>
  A sample acceptance test for concrete evaluations: the non-empty strings of ASCII
  digits, all of which \<open>float\<close> accepts.
\<close>

definition ascii_digits :: "pystr \<Rightarrow> bool" where
  "ascii_digits s = (s \<noteq> [] \<and> list_all (\<lambda>c. 48 \<le> c \<and> c \<le> 57) s)"

section \<open>Pages and the scan detector \<^verbatim>\<open>looks_scanned\<close>\<close>

text \<open>
  A page is what the extraction library answers for it. Every accessor may raise, so each
  answer is either \<open>Inl\<close> of the exception or \<open>Inr\<close> of the value. Where the source reads
  an answer through \<^verbatim>\<open>or []\<close>, \<^verbatim>\<open>or ""\<close> or \<^verbatim>\<open>if tbls else []\<close>, an answer of \<^verbatim>\<open>None\<close> is the
  same as the empty one and is represented by it. \<open>find_tables\<close> answers with table
  objects, each of which answers its own \<^verbatim>\<open>extract()\<close>.
\<close>

datatype exn = Exception

record page =
  find_tables :: "exn + (exn + row list) list"
  extract_tables :: "exn + row list list"
  extract_text :: "exn + pystr"
  extract_words :: "exn + pystr list"
  images :: "exn + nat list"

text \<open>
  \<^verbatim>\<open>try: words = page.extract_words() or []; return (len(words) == 0) and (len(page.images or []) > 0)\<close>
  \<^verbatim>\<open>except Exception: return False\<close>. The images are queried only when there are no words.
\<close>

definition looks_scanned :: "page \<Rightarrow> bool" where
  "looks_scanned p =
     (case extract_words p of
        Inl e \<Rightarrow> False
      | Inr words \<Rightarrow>
          if length words = 0
          then (case images p of Inl e \<Rightarrow> False | Inr imgs \<Rightarrow> length imgs > 0)
          else False)"

section \<open>The document converter \<^verbatim>\<open>convert_pdf_to_excel_bytes\<close>\<close>

text \<open>
  The primary mode: \<^verbatim>\<open>tbls = page.find_tables(); [t.extract() for t in tbls] if tbls else []\<close>.
  It fails when \<open>find_tables\<close> raises or when the \<open>extract\<close> of some table does.
\<close>

fun extract_all :: "(exn + row list) list \<Rightarrow> exn + row list list" where
  "extract_all [] = Inr []"
| "extract_all (t # ts) =
     (case t of
        Inl e \<Rightarrow> Inl e
      | Inr rows \<Rightarrow> (case extract_all ts of Inl e \<Rightarrow> Inl e | Inr rest \<Rightarrow> Inr (rows # rest)))"

definition primary_tables :: "page \<Rightarrow> exn + row list list" where
  "primary_tables p =
     (case find_tables p of
        Inl e \<Rightarrow> Inl e
      | Inr tbls \<Rightarrow> extract_all tbls)"

text \<open>The nested \<^verbatim>\<open>try\<close> blocks of lines 100 to 107.\<close>

definition extracted_tables :: "page \<Rightarrow> row list list" where
  "extracted_tables p =
     (case primary_tables p of
        Inr tables \<Rightarrow> tables
      | Inl e \<Rightarrow> (case extract_tables p of Inr tables \<Rightarrow> tables | Inl e' \<Rightarrow> []))"

text \<open>
  A sheet is its name and its data frame: a labelled table, an unlabelled one, the text
  sheet's rows of page and text, or the note and page list of the information sheet.
\<close>

datatype frame =
    Labeled "pystr list" "row list"
  | Unlabeled "row list"
  | TextFrame "(nat option \<times> pystr) list"
  | InfoFrame pystr pystr

type_synonym sheet = "pystr \<times> frame"

record conv_state =
  book :: "sheet list"
  ocr_pages :: "nat list"
  tables_found :: nat
  text_rows :: "(nat \<times> pystr) list"

definition initial_state :: conv_state where
  "initial_state = \<lparr>book = [], ocr_pages = [], tables_found = 0, text_rows = []\<rparr>"

text \<open>
  \<^verbatim>\<open>if not rows or len(rows) == 0 or (len(rows) == 1 and len(rows[0]) <= 1): continue\<close>
\<close>

definition is_noise :: "row list \<Rightarrow> bool" where
  "is_noise rows = (rows = [] \<or> length rows = 0 \<or> (length rows = 1 \<and> length (rows ! 0) \<le> 1))"

definition build_frame :: "(pystr \<Rightarrow> bool) \<Rightarrow> row list \<Rightarrow> frame" where
  "build_frame parses rows =
     (case infer_header_row parses rows of
        Some header_idx \<Rightarrow>
          Labeled (map (\<lambda>c. case c of None \<Rightarrow> [] | Some s \<Rightarrow> s) (rows ! header_idx))
            (drop (header_idx + 1) rows)
      | None \<Rightarrow> Unlabeled rows)"

definition table_sheet_name :: "nat \<Rightarrow> nat \<Rightarrow> pystr" where
  "table_sheet_name page_index n = lit ''p'' @ str_nat page_index @ lit ''_tbl'' @ str_nat n"

text \<open>
  A write of a sheet, \<^verbatim>\<open>df.to_excel(writer, index=False, sheet_name=sheet)\<close>. No \<^verbatim>\<open>try\<close>
  block encloses the writes of lines 132, 156 and 164, so an exception of the workbook
  writer ends the conversion. Which sheets pandas and openpyxl accept is a property of
  those libraries (openpyxl, for one, raises on a control character in a cell), so the
  acceptance test is a parameter \<open>accepts\<close> of the model. A data frame is built from a
  rectangular grid or from the collected rows, which does not raise.
\<close>

definition to_excel :: "(sheet \<Rightarrow> bool) \<Rightarrow> sheet \<Rightarrow> sheet list \<Rightarrow> exn + sheet list" where
  "to_excel accepts sheet sheets = (if accepts sheet then Inr (sheets @ [sheet]) else Inl Exception)"

text \<open>
  The loop over the tables of one page. The second component of the state is
  \<^verbatim>\<open>table_count_this_page\<close>. The result is \<open>None\<close> when the renaming loop does not return and
  \<open>Some (Inl e)\<close> when a write raises.
\<close>

fun write_tables ::
  "(pystr \<Rightarrow> bool) \<Rightarrow> (sheet \<Rightarrow> bool) \<Rightarrow> nat \<Rightarrow> row list list \<Rightarrow> conv_state \<times> nat
     \<Rightarrow> (exn + conv_state \<times> nat) option" where
  "write_tables parses accepts page_index [] (st, cnt) = Some (Inr (st, cnt))"
| "write_tables parses accepts page_index (raw_rows # rest) (st, cnt) =
     (let rows = clean_table_data raw_rows in
      if is_noise rows then write_tables parses accepts page_index rest (st, cnt)
      else
        let df = build_frame parses rows
        in case unique_name (map fst (book st)) (table_sheet_name page_index (cnt + 1)) of
             None \<Rightarrow> None
           | Some sheet \<Rightarrow>
               (case to_excel accepts (sheet, df) (book st) of
                  Inl e \<Rightarrow> Some (Inl e)
                | Inr sheets \<Rightarrow>
                    write_tables parses accepts page_index rest
                      (st\<lparr>book := sheets, tables_found := tables_found st + 1\<rparr>, cnt + 1)))"

text \<open>
  \<^verbatim>\<open>str.splitlines()\<close>: the line boundaries are the code points below, a carriage return
  followed by a line feed counts as one boundary, and a final boundary opens no new line.
\<close>

definition is_linebreak :: "nat \<Rightarrow> bool" where
  "is_linebreak c = (c \<in> {10, 11, 12, 13, 28, 29, 30, 133, 8232, 8233})"

function splitlines :: "pystr \<Rightarrow> pystr list" where
  "splitlines s =
     (if s = [] then []
      else
        let line = takeWhile (\<lambda>c. \<not> is_linebreak c) s;
            rest = dropWhile (\<lambda>c. \<not> is_linebreak c) s
        in line #
           (if rest = [] then []
            else if hd rest = 13 \<and> tl rest \<noteq> [] \<and> hd (tl rest) = 10 then splitlines (tl (tl rest))
            else splitlines (tl rest)))"
  by pat_completeness auto
termination
proof (relation "measure length", goal_cases)
  case 1
  show ?case by simp
next
  case (2 s line rest)
  have "length (tl (tl rest)) \<le> length (tl rest)" by simp
  moreover have "length (tl rest) < length rest" using 2 by (cases rest) simp_all
  moreover have "length rest \<le> length s" using 2 by (simp add: length_dropWhile_le)
  ultimately show ?case by simp
next
  case (3 s line rest)
  have "length (tl rest) < length rest" using 3 by (cases rest) simp_all
  moreover have "length rest \<le> length s" using 3 by (simp add: length_dropWhile_le)
  ultimately show ?case by simp
qed

declare splitlines.simps [simp del]

text \<open>
  \<^verbatim>\<open>try: txt = page.extract_text() or "" except Exception: txt = ""\<close>, then a row of page and
  stripped line for every line that is not blank, if the text is not blank.
\<close>

definition page_text :: "page \<Rightarrow> pystr" where
  "page_text p = (case extract_text p of Inl e \<Rightarrow> [] | Inr txt \<Rightarrow> txt)"

definition text_lines :: "nat \<Rightarrow> pystr \<Rightarrow> (nat \<times> pystr) list" where
  "text_lines page_index txt =
     (if strip txt \<noteq> []
      then map (\<lambda>line. (page_index, strip line)) (filter (\<lambda>line. strip line \<noteq> []) (splitlines txt))
      else [])"

text \<open>
  The block under \<^verbatim>\<open>if table_count_this_page == 0\<close>: the page's text lines are collected and
  the page is recorded when it looks scanned.
\<close>

definition collect_text :: "nat \<Rightarrow> page \<Rightarrow> conv_state \<Rightarrow> conv_state" where
  "collect_text page_index p st =
     (let st2 = st\<lparr>text_rows := text_rows st @ text_lines page_index (page_text p)\<rparr>
      in if looks_scanned p then st2\<lparr>ocr_pages := ocr_pages st2 @ [page_index]\<rparr> else st2)"

definition process_page ::
  "(pystr \<Rightarrow> bool) \<Rightarrow> (sheet \<Rightarrow> bool) \<Rightarrow> nat \<Rightarrow> page \<Rightarrow> conv_state
     \<Rightarrow> (exn + conv_state) option" where
  "process_page parses accepts page_index p st =
     (case write_tables parses accepts page_index (extracted_tables p) (st, 0) of
        None \<Rightarrow> None
      | Some (Inl e) \<Rightarrow> Some (Inl e)
      | Some (Inr (st1, table_count_this_page)) \<Rightarrow>
          if table_count_this_page = 0 then Some (Inr (collect_text page_index p st1))
          else Some (Inr st1))"

text \<open>\<^verbatim>\<open>for page_index, page in enumerate(pdf.pages, start=1)\<close>\<close>

fun process_pages ::
  "(pystr \<Rightarrow> bool) \<Rightarrow> (sheet \<Rightarrow> bool) \<Rightarrow> nat \<Rightarrow> page list \<Rightarrow> conv_state
     \<Rightarrow> (exn + conv_state) option" where
  "process_pages parses accepts page_index [] st = Some (Inr st)"
| "process_pages parses accepts page_index (p # ps) st =
     (case process_page parses accepts page_index p st of
        None \<Rightarrow> None
      | Some (Inl e) \<Rightarrow> Some (Inl e)
      | Some (Inr st') \<Rightarrow> process_pages parses accepts (page_index + 1) ps st')"

text \<open>\<^verbatim>\<open>", ".join(map(str, ocr_pages))\<close>\<close>

fun join_pages :: "nat list \<Rightarrow> pystr" where
  "join_pages [] = []"
| "join_pages [n] = str_nat n"
| "join_pages (n # ns) = str_nat n @ lit '', '' @ join_pages ns"

text \<open>The sheets written after the loop: the text sheet and the information sheet.\<close>

definition text_sheet :: "(nat \<times> pystr) list \<Rightarrow> sheet" where
  "text_sheet rows =
     (lit ''Text'',
      TextFrame (if rows \<noteq> []
                 then map (\<lambda>(page_index, line). (Some page_index, line)) rows
                 else [(None, lit ''No extractable content found.'')]))"

definition info_sheet :: "nat list \<Rightarrow> sheet" where
  "info_sheet pages =
     (lit ''Info'',
      InfoFrame (lit ''Some pages appear scanned (image-only). OCR recommended.'')
        (join_pages pages))"

text \<open>
  \<^verbatim>\<open>if tables_found == 0: ... df_text.to_excel(writer, index=False, sheet_name="Text")\<close> and
  \<^verbatim>\<open>if ocr_pages: ... info.to_excel(writer, index=False, sheet_name="Info")\<close>.
\<close>

definition finish :: "(sheet \<Rightarrow> bool) \<Rightarrow> conv_state \<Rightarrow> exn + sheet list" where
  "finish accepts st =
     (case (if tables_found st = 0 then to_excel accepts (text_sheet (text_rows st)) (book st)
            else Inr (book st)) of
        Inl e \<Rightarrow> Inl e
      | Inr sheets \<Rightarrow>
          if ocr_pages st \<noteq> []
          then to_excel accepts (info_sheet (ocr_pages st)) sheets else Inr sheets)"

text \<open>
  The conversion of one document. The result is \<open>Some (Inr sheets)\<close>, the sheets of the
  workbook in the order written, when the function returns; \<open>Some (Inl e)\<close> when it raises,
  which it does when the document cannot be opened and when a write raises; and \<open>None\<close>
  when the renaming loop does not return.
\<close>

definition convert_pdf_to_excel_bytes ::
  "(pystr \<Rightarrow> bool) \<Rightarrow> (sheet \<Rightarrow> bool) \<Rightarrow> exn + page list \<Rightarrow> (exn + sheet list) option" where
  "convert_pdf_to_excel_bytes parses accepts pdf =
     (case pdf of
        Inl e \<Rightarrow> Some (Inl e)
      | Inr pages \<Rightarrow>
          (case process_pages parses accepts 1 pages initial_state of
             None \<Rightarrow> None
           | Some (Inl e) \<Rightarrow> Some (Inl e)
           | Some (Inr st) \<Rightarrow> Some (finish accepts st)))"

text \<open>
  A sample writer for concrete evaluations: it refuses a sheet that holds, in a label, a
  cell or a text, one of the control characters that openpyxl refuses, and accepts every
  other sheet.
\<close>

definition control_character :: "nat \<Rightarrow> bool" where
  "control_character c = (c \<le> 8 \<or> c = 11 \<or> c = 12 \<or> (14 \<le> c \<and> c \<le> 31))"

fun frame_strings :: "frame \<Rightarrow> pystr list" where
  "frame_strings (Labeled header rows) = header @ map py_str (filter (\<lambda>c. c \<noteq> None) (concat rows))"
| "frame_strings (Unlabeled rows) = map py_str (filter (\<lambda>c. c \<noteq> None) (concat rows))"
| "frame_strings (TextFrame rows) = map snd rows"
| "frame_strings (InfoFrame note pages) = [note, pages]"

definition refuses_control_characters :: "sheet \<Rightarrow> bool" where
  "refuses_control_characters sheet =
     list_all (\<lambda>s. list_all (\<lambda>c. \<not> control_character c) s) (frame_strings (snd sheet))"

section \<open>Notions used in the proofs\<close>

text \<open>
  A plain string is non-empty and holds neither whitespace nor a forbidden character; the
  decimal numerals and the generated table names are plain.
\<close>

definition plain :: "pystr \<Rightarrow> bool" where
  "plain u = (u \<noteq> [] \<and> (\<forall>c \<in> set u. \<not> is_space c \<and> \<not> forbidden c))"

text \<open>What the two substitutions and the removal of leading whitespace leave of a string.\<close>

definition lead :: "pystr \<Rightarrow> pystr" where
  "lead a = dropWhile is_space (collapse_ws (replace_forbidden a))"

section \<open>The result of a conversion in which no sheet is renamed or refused\<close>

text \<open>
  The grids of a page that are written as sheets: the extracted tables, normalized, without
  those discarded as noise.
\<close>

definition surviving :: "row list list \<Rightarrow> row list list" where
  "surviving tables = filter (\<lambda>rows. \<not> is_noise rows) (map clean_table_data tables)"

definition surviving_tables :: "page \<Rightarrow> row list list" where
  "surviving_tables p = surviving (extracted_tables p)"

text \<open>
  The sheets the loop over a page's tables appends when every generated name is new: one
  per surviving grid, named by page and by the grid's ordinal on the page.
\<close>

fun table_sheets :: "(pystr \<Rightarrow> bool) \<Rightarrow> nat \<Rightarrow> nat \<Rightarrow> row list list \<Rightarrow> sheet list" where
  "table_sheets parses i cnt [] = []"
| "table_sheets parses i cnt (g # gs) =
     (table_sheet_name i (cnt + 1), build_frame parses g) # table_sheets parses i (cnt + 1) gs"

text \<open>The state after one page, and after a list of pages, under the same condition.\<close>

definition page_result :: "(pystr \<Rightarrow> bool) \<Rightarrow> nat \<Rightarrow> page \<Rightarrow> conv_state \<Rightarrow> conv_state" where
  "page_result parses i p st =
     (if surviving_tables p = [] then collect_text i p st
      else st\<lparr>book := book st @ table_sheets parses i 0 (surviving_tables p),
              tables_found := tables_found st + length (surviving_tables p)\<rparr>)"

fun pages_result :: "(pystr \<Rightarrow> bool) \<Rightarrow> nat \<Rightarrow> page list \<Rightarrow> conv_state \<Rightarrow> conv_state" where
  "pages_result parses i [] st = st"
| "pages_result parses i (p # ps) st = pages_result parses (i + 1) ps (page_result parses i p st)"



text \<open>The table sheets of a list of pages under that condition, in the order written.\<close>

fun new_sheets :: "(pystr \<Rightarrow> bool) \<Rightarrow> nat \<Rightarrow> page list \<Rightarrow> sheet list" where
  "new_sheets parses i [] = []"
| "new_sheets parses i (p # ps) =
     table_sheets parses i 0 (surviving_tables p) @ new_sheets parses (i + 1) ps"

text \<open>
  Below this number of pages, and of tables on a page, every generated name fits into 31
  characters: \<open>p\<close>, at most 13 digits, \<open>_tbl\<close>, at most 13 digits.
\<close>

definition sheet_limit :: nat where
  "sheet_limit = 10 ^ 13"

text \<open>
  The invariant of the two loops: the names in the workbook are generated table names of
  earlier pages, or of the current page with an ordinal up to the current count; they are
  pairwise different; and \<open>tables_found\<close> counts the sheets.
\<close>

definition names_before :: "nat \<Rightarrow> nat \<Rightarrow> pystr list \<Rightarrow> bool" where
  "names_before i cnt names =
     (\<forall>n \<in> set names. \<exists>i' k'. n = table_sheet_name i' k' \<and> (i' < i \<or> (i' = i \<and> k' \<le> cnt)))"


definition book_ok :: "nat \<Rightarrow> conv_state \<Rightarrow> bool" where
  "book_ok i st =
     (names_before i 0 (map fst (book st)) \<and> distinct (map fst (book st))
      \<and> tables_found st = length (book st))"

section \<open>Sample inputs\<close>

text \<open>A page of a scanned document: no words, one image.\<close>

definition scanned_page :: page where
  "scanned_page =
     \<lparr>find_tables = Inr [], extract_tables = Inr [], extract_text = Inr [],
      extract_words = Inr [], images = Inr [0]\<rparr>"

text \<open>A page on which every accessor of the extraction library raises.\<close>

definition broken_page :: page where
  "broken_page =
     \<lparr>find_tables = Inl Exception, extract_tables = Inl Exception, extract_text = Inl Exception,
      extract_words = Inl Exception, images = Inl Exception\<rparr>"

text \<open>The grid of the specification's first header scenario.\<close>

definition fruit_grid :: "row list" where
  "fruit_grid =
     [[Some (lit ''Name''), Some (lit ''Qty'')],
      [Some (lit ''Apple''), Some (lit ''3'')],
      [Some (lit ''Pear''), Some (lit ''5'')]]"

text \<open>
  A document of three pages: two tables on the first page, one table on the second, which
  only the secondary extraction mode delivers, and narrative text on the third.
\<close>

definition narrative_page :: page where
  "narrative_page =
     \<lparr>find_tables = Inr [], extract_tables = Inr [],
      extract_text = Inr (lit ''Once upon'' @ [10] @ lit ''  a time  '' @ [10]),
      extract_words = Inr [lit ''Once'', lit ''upon'', lit ''a'', lit ''time''], images = Inr []\<rparr>"

definition two_table_page :: page where
  "two_table_page = narrative_page\<lparr>find_tables := Inr [Inr fruit_grid, Inr ragged_table]\<rparr>"

definition fallback_page :: page where
  "fallback_page = narrative_page\<lparr>find_tables := Inl Exception, extract_tables := Inr [fruit_grid]\<rparr>"

definition three_page_document :: "page list" where
  "three_page_document = [two_table_page, fallback_page, narrative_page]"

text \<open>
  A page whose first table object raises in \<open>extract\<close>, so that the secondary mode is used;
  and a page of text with a control character in its second line.
\<close>

definition failing_extract_page :: page where
  "failing_extract_page =
     narrative_page\<lparr>find_tables := Inr [Inl Exception, Inr fruit_grid],
                     extract_tables := Inr [ragged_table]\<rparr>"


text \<open>A name of 31 characters, the longest a sheet name can be.\<close>

definition long_name :: pystr where
  "long_name = lit ''aaaaaaaaaaaaaaaaaaaaaaaaaaaaaaa''"

section \<open>Properties of the row normalizer\<close>

subsection \<open>Basic facts\<close>

lemma pad_nth:
  "c < n \<Longrightarrow> (r @ replicate (n - length r) None) ! c = (if c < length r then r ! c else None)"
  by (simp add: nth_append)

lemma filled_None [simp]: "\<not> filled None"
  by (simp add: filled_def)

lemma list_ex_filled_nth:
  "list_ex filled r \<longleftrightarrow> (\<exists>c < length r. filled (r ! c))"
  unfolding list_ex_iff by (metis in_set_conv_nth)

lemma length_le_max_len: "r \<in> set rows \<Longrightarrow> length r \<le> max_len rows"
  by (simp add: max_len_def)

lemma max_len_attained: "rows \<noteq> [] \<Longrightarrow> \<exists>r \<in> set rows. length r = max_len rows"
proof -
  assume "rows \<noteq> []"
  then have "Max (set (map length rows)) \<in> set (map length rows)"
    by (intro Max_in) simp_all
  then show ?thesis
    by (auto simp: max_len_def)
qed

lemma padded_filled_iff:
  assumes "c < max_len rows"
  shows "list_ex (\<lambda>row. filled (row ! c)) (pad_rows (max_len rows) rows)
         \<longleftrightarrow> (\<exists>r \<in> set rows. c < length r \<and> filled (r ! c))"
  using assms by (auto simp: pad_rows_def list_ex_iff pad_nth)

lemma drop_empty_rows_filled_iff:
  "(\<exists>r \<in> set (drop_empty_rows rows). c < length r \<and> filled (r ! c))
   \<longleftrightarrow> (\<exists>r \<in> set rows. c < length r \<and> filled (r ! c))"
  by (auto simp: drop_empty_rows_def list_ex_filled_nth)

lemma filled_below_max_len:
  assumes "r \<in> set rows" "c < length r" "filled (r ! c)"
  shows "c < max_len (drop_empty_rows rows)"
proof -
  from assms have "r \<in> set (drop_empty_rows rows)"
    by (auto simp: drop_empty_rows_def list_ex_filled_nth)
  then have "length r \<le> max_len (drop_empty_rows rows)"
    by (rule length_le_max_len)
  with assms(2) show ?thesis by simp
qed

lemma max_len_drop_le:
  assumes "drop_empty_rows rows \<noteq> []"
  shows "max_len (drop_empty_rows rows) \<le> Max (insert 0 (set (map length rows)))"
proof -
  from max_len_attained [OF assms] obtain r
    where r: "r \<in> set (drop_empty_rows rows)" "length r = max_len (drop_empty_rows rows)"
    by blast
  then have "r \<in> set rows" by (simp add: drop_empty_rows_def)
  then have "length r \<in> insert 0 (set (map length rows))" by simp
  then have "length r \<le> Max (insert 0 (set (map length rows)))"
    by (intro Max_ge) simp_all
  with r(2) show ?thesis by simp
qed

text \<open>
  The columns the source keeps are exactly the surviving columns of the original rows:
  the rows dropped as empty contribute no filled cell, and no filled cell lies at or
  beyond the longest kept row.
\<close>

lemma cols_to_keep_surviving:
  assumes ne: "drop_empty_rows rows \<noteq> []"
  shows "cols_to_keep (max_len (drop_empty_rows rows))
           (pad_rows (max_len (drop_empty_rows rows)) (drop_empty_rows rows))
         = surviving_columns rows"
proof -
  let ?k = "drop_empty_rows rows"
  let ?n = "max_len ?k"
  let ?M = "Max (insert 0 (set (map length rows)))"
  let ?Q = "\<lambda>c. \<exists>row \<in> set rows. c < length row \<and> filled (row ! c)"
  have le: "?n \<le> ?M" by (rule max_len_drop_le [OF ne])
  have "cols_to_keep ?n (pad_rows ?n ?k) = filter ?Q [0..<?n]"
    unfolding cols_to_keep_def
    by (rule filter_cong [OF refl])
       (simp add: padded_filled_iff drop_empty_rows_filled_iff)
  moreover have "filter ?Q [?n..<?M] = []"
    using filled_below_max_len by (fastforce simp: filter_empty_conv)
  moreover have "[0..<?M] = [0..<?n] @ [?n..<?M]"
    using le by (metis le_add_diff_inverse upt_add_eq_append zero_le)
  ultimately show ?thesis
    by (simp add: surviving_columns_def)
qed

lemma surviving_columns_no_content:
  "drop_empty_rows rows = [] \<Longrightarrow> surviving_columns rows = []"
  by (auto simp: surviving_columns_def filter_empty_conv drop_empty_rows_def
        list_ex_filled_nth)

lemma clean_table_data_unfold:
  assumes "drop_empty_rows rows \<noteq> []"
  shows "clean_table_data rows =
     map (\<lambda>row. map (\<lambda>c. row ! c) (surviving_columns rows))
       (pad_rows (max_len (drop_empty_rows rows)) (drop_empty_rows rows))"
proof -
  from assms have "rows \<noteq> []"
    by (auto simp: drop_empty_rows_def)
  with assms show ?thesis
    by (simp add: clean_table_data_def Let_def cols_to_keep_surviving)
qed

lemma clean_table_data_empty:
  "drop_empty_rows rows = [] \<Longrightarrow> clean_table_data rows = []"
  by (simp add: clean_table_data_def)

lemma surviving_columns_mem:
  "c \<in> set (surviving_columns rows) \<longleftrightarrow> (\<exists>row \<in> set rows. c < length row \<and> filled (row ! c))"
proof -
  have "c < Max (insert 0 (set (map length rows)))"
    if "row \<in> set rows" "c < length row" for row
  proof -
    from that(1) have "length row \<le> Max (insert 0 (set (map length rows)))"
      by (intro Max_ge) simp_all
    with that(2) show ?thesis by simp
  qed
  then show ?thesis
    by (auto simp: surviving_columns_def)
qed

lemma surviving_columns_sorted: "sorted_wrt (<) (surviving_columns rows)"
  by (simp add: surviving_columns_def sorted_wrt_filter)

lemma clean_table_data_length:
  "length (clean_table_data rows) = length (drop_empty_rows rows)"
  by (cases "drop_empty_rows rows = []")
     (simp_all add: clean_table_data_empty clean_table_data_unfold pad_rows_def)

lemma clean_table_data_nth:
  assumes "i < length (drop_empty_rows rows)"
  shows "clean_table_data rows ! i =
         map (\<lambda>c. if c < length (drop_empty_rows rows ! i) then drop_empty_rows rows ! i ! c else None)
           (surviving_columns rows)"
proof -
  let ?k = "drop_empty_rows rows"
  from assms have ne: "?k \<noteq> []" by auto
  have in_k: "?k ! i \<in> set ?k" using assms by simp
  have below: "c < max_len ?k" if "c \<in> set (surviving_columns rows)" for c
    using that filled_below_max_len by (auto simp: surviving_columns_mem)
  have "clean_table_data rows ! i =
        map (\<lambda>c. (?k ! i @ replicate (max_len ?k - length (?k ! i)) None) ! c) (surviving_columns rows)"
    using assms by (simp add: clean_table_data_unfold [OF ne] pad_rows_def)
  also have "\<dots> = map (\<lambda>c. if c < length (?k ! i) then ?k ! i ! c else None) (surviving_columns rows)"
    by (rule map_cong [OF refl]) (simp add: pad_nth below)
  finally show ?thesis .
qed

lemma drop_empty_rows_has_filled:
  "r \<in> set (drop_empty_rows rows) \<Longrightarrow> \<exists>c < length r. filled (r ! c)"
  by (simp add: drop_empty_rows_def list_ex_filled_nth)

lemma drop_empty_rows_subset: "r \<in> set (drop_empty_rows rows) \<Longrightarrow> r \<in> set rows"
  by (simp add: drop_empty_rows_def)

lemma clean_row_length:
  assumes "r \<in> set (clean_table_data rows)"
  shows "length r = length (surviving_columns rows)"
proof -
  from assms obtain i where i: "i < length (clean_table_data rows)" "r = clean_table_data rows ! i"
    by (auto simp: in_set_conv_nth)
  then show ?thesis
    by (simp add: clean_table_data_length clean_table_data_nth)
qed

lemma clean_row_filled:
  assumes "r \<in> set (clean_table_data rows)"
  shows "\<exists>c \<in> set r. filled c"
proof -
  let ?k = "drop_empty_rows rows"
  from assms obtain i where i: "i < length ?k" "r = clean_table_data rows ! i"
    by (auto simp: in_set_conv_nth clean_table_data_length)
  then have "?k ! i \<in> set ?k" by simp
  then obtain c where c: "c < length (?k ! i)" "filled (?k ! i ! c)"
    using drop_empty_rows_has_filled by blast
  moreover have "?k ! i \<in> set rows"
    using \<open>?k ! i \<in> set ?k\<close> by (rule drop_empty_rows_subset)
  ultimately have "c \<in> set (surviving_columns rows)"
    by (auto simp: surviving_columns_mem)
  then have "(if c < length (?k ! i) then ?k ! i ! c else None) \<in> set r"
    using i by (simp add: clean_table_data_nth)
  with c show ?thesis by auto
qed

lemma clean_column_filled:
  assumes "j < length (surviving_columns rows)"
  shows "\<exists>r \<in> set (clean_table_data rows). filled (r ! j)"
proof -
  let ?k = "drop_empty_rows rows"
  let ?c = "surviving_columns rows ! j"
  from assms have "?c \<in> set (surviving_columns rows)" by simp
  then obtain row where row: "row \<in> set rows" "?c < length row" "filled (row ! ?c)"
    by (auto simp: surviving_columns_mem)
  then have "row \<in> set ?k"
    by (auto simp: drop_empty_rows_def list_ex_filled_nth)
  then obtain i where i: "i < length ?k" "?k ! i = row"
    by (auto simp: in_set_conv_nth)
  then have "clean_table_data rows ! i ! j = row ! ?c"
    using assms row(2) by (simp add: clean_table_data_nth)
  moreover have "clean_table_data rows ! i \<in> set (clean_table_data rows)"
    using i(1) by (simp add: clean_table_data_length)
  ultimately show ?thesis
    using row(3) by force
qed

lemma ragged_table_clean:
  "clean_table_data ragged_table = [[Some [97], None], [Some [], Some [98]]]"
  by (simp add: ragged_table_def clean_table_data_def drop_empty_rows_def max_len_def
        pad_rows_def cols_to_keep_def filled_def lit_def Let_def)

lemma ragged_table_kept: "drop_empty_rows ragged_table =
    [[Some [97], None, None], [Some [], None, Some [98], None]]"
  by (simp add: ragged_table_def drop_empty_rows_def filled_def lit_def)

lemma ragged_table_surviving: "surviving_columns ragged_table = [0, 2]"
  by (simp add: ragged_table_def surviving_columns_def filled_def lit_def)

subsection \<open>The grid invariant\<close>

text \<open>
  Claim C1. For every raw table, the grid returned by \<open>clean_table_data\<close> is rectangular,
  and the common row length is the number of surviving columns of the original rows (the
  column indices below the longest original row that hold a filled cell in some row);
  every row of the grid holds a filled cell, and so does every column. An empty result
  satisfies all three parts trivially: it has no rows and no surviving columns.
\<close>

theorem clean_table_data_grid_invariant:
  "(\<forall>r \<in> set (clean_table_data rows). length r = length (surviving_columns rows))
   \<and> (\<forall>r \<in> set (clean_table_data rows). \<exists>c \<in> set r. filled c)
   \<and> (\<forall>j < length (surviving_columns rows). \<exists>r \<in> set (clean_table_data rows). filled (r ! j))"
  using clean_row_length clean_row_filled clean_column_filled by blast

theorem clean_table_data_grid_invariant_witness:
  "length (clean_table_data ragged_table ! 1) = length (surviving_columns ragged_table)
   \<and> length (surviving_columns ragged_table) = 2
   \<and> (\<exists>c \<in> set (clean_table_data ragged_table ! 1). filled c)
   \<and> (\<exists>r \<in> set (clean_table_data ragged_table). filled (r ! 1))"
proof -
  have mem: "clean_table_data ragged_table ! 1 \<in> set (clean_table_data ragged_table)"
    by (simp add: ragged_table_clean)
  have col: "1 < length (surviving_columns ragged_table)"
    by (simp add: ragged_table_surviving)
  from clean_table_data_grid_invariant [of ragged_table] mem col show ?thesis
    by (simp add: ragged_table_surviving)
qed

subsection \<open>Cells are carried over unchanged\<close>

text \<open>
  Claim C10. The grid has one row for each input row that holds a filled cell, in the
  input's order, and one column for each surviving column index, in ascending order. The
  cell at row \<open>i\<close> and column \<open>j\<close> of the grid is the cell the \<open>i\<close>-th kept input row
  holds at the \<open>j\<close>-th surviving column index, unchanged, when that row is long enough, and
  the absent cell \<open>None\<close> of the padding otherwise. No cell content is rewritten.
\<close>

theorem clean_table_data_cells_unchanged:
  "length (clean_table_data rows) = length (drop_empty_rows rows)
   \<and> sorted_wrt (<) (surviving_columns rows)
   \<and> (\<forall>i < length (clean_table_data rows).
        length (clean_table_data rows ! i) = length (surviving_columns rows)
        \<and> (\<forall>j < length (surviving_columns rows).
             clean_table_data rows ! i ! j =
               (if surviving_columns rows ! j < length (drop_empty_rows rows ! i)
                then drop_empty_rows rows ! i ! (surviving_columns rows ! j) else None)))"
  by (simp add: clean_table_data_length surviving_columns_sorted clean_table_data_nth)

theorem clean_table_data_cells_unchanged_witness:
  "clean_table_data ragged_table ! 1 ! 0 = Some []
   \<and> drop_empty_rows ragged_table ! 1 ! 0 = Some []
   \<and> clean_table_data ragged_table ! 0 ! 1 = None
   \<and> clean_table_data ragged_table ! 1 ! 1 = drop_empty_rows ragged_table ! 1 ! 2"
proof -
  have rows: "0 < length (clean_table_data ragged_table)" "1 < length (clean_table_data ragged_table)"
    by (simp_all add: ragged_table_clean)
  from clean_table_data_cells_unchanged [of ragged_table] rows show ?thesis
    by (simp add: ragged_table_surviving ragged_table_kept)
qed

subsection \<open>Idempotence\<close>

text \<open>A grid that already satisfies the invariant is returned as it is.\<close>

lemma clean_table_data_fixed:
  assumes len: "\<forall>r \<in> set g. length r = w"
    and rows: "\<forall>r \<in> set g. \<exists>c \<in> set r. filled c"
    and cols: "\<forall>j < w. \<exists>r \<in> set g. filled (r ! j)"
  shows "clean_table_data g = g"
proof (cases "g = []")
  case True
  then show ?thesis by (simp add: clean_table_data_def)
next
  case False
  have keep: "drop_empty_rows g = g"
    using rows by (simp add: drop_empty_rows_def list_ex_iff)
  have n: "max_len g = w"
    using max_len_attained [OF False] len by auto
  have pad: "pad_rows w g = g"
    unfolding pad_rows_def using len by (simp add: map_idI)
  have k: "cols_to_keep w g = [0..<w]"
    unfolding cols_to_keep_def using cols by (simp add: list_ex_iff)
  have "map (\<lambda>row. map (\<lambda>c. row ! c) [0..<w]) g = g"
    using len by (intro map_idI) (auto simp: map_nth)
  with False show ?thesis
    by (simp add: clean_table_data_def Let_def keep n pad k)
qed

text \<open>
  Claim C5. Normalization is idempotent: applying \<open>clean_table_data\<close> to its own output
  returns that output.
\<close>

theorem clean_table_data_idempotent:
  "clean_table_data (clean_table_data g) = clean_table_data g"
  by (rule clean_table_data_fixed [where w = "length (surviving_columns g)"])
     (simp_all add: clean_row_length clean_row_filled clean_column_filled)

theorem clean_table_data_idempotent_witness:
  "clean_table_data (clean_table_data ragged_table) = [[Some [97], None], [Some [], Some [98]]]"
  using clean_table_data_idempotent [of ragged_table] by (simp add: ragged_table_clean)

section \<open>Properties of the header inferencer\<close>














section \<open>Properties of the sheet namer\<close>

lemma set_collapse_ws: "set (collapse_ws s) \<subseteq> insert 32 (set s)"
proof (induction s rule: collapse_ws.induct)
  case 1
  show ?case by simp
next
  case (2 c cs)
  have "set (dropWhile is_space cs) \<subseteq> set cs"
    by (auto dest: set_dropWhileD)
  with 2 show ?case by auto
qed

lemma set_strip: "set (strip s) \<subseteq> set s"
  by (auto simp: strip_def dest!: set_dropWhileD)

lemma space_not_forbidden: "\<not> forbidden 32"
  by (simp add: forbidden_def)

lemma replace_forbidden_clean: "c \<in> set (replace_forbidden name) \<Longrightarrow> \<not> forbidden c"
  by (auto simp: replace_forbidden_def space_not_forbidden)

lemma cleaned_not_forbidden:
  assumes "c \<in> set (strip (collapse_ws (replace_forbidden name)))"
  shows "\<not> forbidden c"
proof -
  from assms have "c \<in> insert 32 (set (replace_forbidden name))"
    using set_strip set_collapse_ws by blast
  then show ?thesis
    using replace_forbidden_clean space_not_forbidden by auto
qed

lemma sheet_literal_not_forbidden: "c \<in> set (lit ''Sheet'') \<Longrightarrow> \<not> forbidden c"
  by (auto simp: lit_def forbidden_def)

text \<open>
  Claim C6. For every input string the sanitized name has at most 31 characters, is not
  empty, and holds none of the characters \<^verbatim>\<open>: \ / ? * [ ]\<close>; when nothing is left after the
  cleaning, the result is the literal \<^verbatim>\<open>Sheet\<close>.
\<close>

theorem sanitize_sheet_name_valid:
  "length (sanitize_sheet_name name) \<le> 31
   \<and> sanitize_sheet_name name \<noteq> []
   \<and> (\<forall>c \<in> set (sanitize_sheet_name name). \<not> forbidden c)
   \<and> (strip (collapse_ws (replace_forbidden name)) = [] \<longrightarrow> sanitize_sheet_name name = lit ''Sheet'')"
proof (cases "strip (collapse_ws (replace_forbidden name)) = []")
  case True
  then have "sanitize_sheet_name name = lit ''Sheet''"
    by (simp add: sanitize_sheet_name_def)
  then show ?thesis
    using sheet_literal_not_forbidden by (auto simp: lit_def)
next
  case False
  then have eq: "sanitize_sheet_name name = take 31 (strip (collapse_ws (replace_forbidden name)))"
    by (simp add: sanitize_sheet_name_def)
  have "\<not> forbidden c" if "c \<in> set (sanitize_sheet_name name)" for c
    using that cleaned_not_forbidden unfolding eq by (blast dest: in_set_takeD)
  with False show ?thesis
    by (auto simp: eq)
qed

lemmas sanitize_eval = sanitize_sheet_name_def lit_def replace_forbidden_def forbidden_def is_space_def strip_def

theorem sanitize_sheet_name_valid_witness:
  "sanitize_sheet_name (lit ''Revenue: Q1/Q2 [Final]'') = lit ''Revenue Q1 Q2 Final''
   \<and> \<not> forbidden 32
   \<and> strip (collapse_ws (replace_forbidden (lit ''  ::  ''))) = []
   \<and> sanitize_sheet_name (lit ''  ::  '') = lit ''Sheet''"
proof -
  have a: "sanitize_sheet_name (lit ''Revenue: Q1/Q2 [Final]'') = lit ''Revenue Q1 Q2 Final''"
    by (simp add: sanitize_eval)
  have b: "32 \<in> set (sanitize_sheet_name (lit ''Revenue: Q1/Q2 [Final]''))"
    by (simp add: a) (simp add: lit_def)
  have c: "strip (collapse_ws (replace_forbidden (lit ''  ::  ''))) = []"
    by (simp add: sanitize_eval)
  from sanitize_sheet_name_valid [of "lit ''Revenue: Q1/Q2 [Final]''"] b
  have "\<not> forbidden 32" by blast
  moreover from sanitize_sheet_name_valid [of "lit ''  ::  ''"] c
  have "sanitize_sheet_name (lit ''  ::  '') = lit ''Sheet''" by blast
  ultimately show ?thesis using a c by simp
qed

subsection \<open>Decimal numerals\<close>

lemma str_nat_digits: "c \<in> set (str_nat n) \<Longrightarrow> 48 \<le> c \<and> c \<le> 57"
proof (induction n rule: str_nat.induct)
  case (1 n)
  then show ?case
    by (subst (asm) (2) str_nat.simps) (auto split: if_splits)
qed

lemma str_nat_nonempty: "str_nat n \<noteq> []"
  by (subst str_nat.simps) simp

lemma str_nat_small: "n < 10 \<Longrightarrow> str_nat n = [48 + n]"
  by (subst str_nat.simps) simp

lemma str_nat_big: "\<not> n < 10 \<Longrightarrow> str_nat n = str_nat (n div 10) @ [48 + n mod 10]"
  by (subst str_nat.simps) simp

lemma str_nat_inj: "str_nat m = str_nat n \<Longrightarrow> m = n"
proof (induction m arbitrary: n rule: str_nat.induct)
  case (1 m)
  show ?case
  proof (cases "m < 10")
    case True
    show ?thesis
    proof (cases "n < 10")
      case True
      with \<open>m < 10\<close> "1.prems" show ?thesis by (simp add: str_nat_small)
    next
      case False
      with \<open>m < 10\<close> "1.prems" have "str_nat (n div 10) = []"
        by (simp add: str_nat_small str_nat_big [of n] Cons_eq_append_conv)
      then show ?thesis by (simp add: str_nat_nonempty)
    qed
  next
    case False
    have big: "\<not> n < 10"
    proof
      assume "n < 10"
      with False "1.prems" have "str_nat (m div 10) = []"
        by (simp add: str_nat_small str_nat_big [of m] append_eq_Cons_conv)
      then show False by (simp add: str_nat_nonempty)
    qed
    from "1.prems" False big
    have "str_nat (m div 10) @ [48 + m mod 10] = str_nat (n div 10) @ [48 + n mod 10]"
      by (simp add: str_nat_big [of m] str_nat_big [of n])
    then have "str_nat (m div 10) = str_nat (n div 10)" "m mod 10 = n mod 10"
      by simp_all
    with "1.IH" [OF False] have "m div 10 = n div 10" "m mod 10 = n mod 10"
      by simp_all
    then show ?thesis
      by (metis div_mult_mod_eq)
  qed
qed

lemma str_nat_length_le: "n < 10 ^ d \<Longrightarrow> 0 < d \<Longrightarrow> length (str_nat n) \<le> d"
proof (induction d arbitrary: n)
  case 0
  then show ?case by simp
next
  case (Suc d)
  show ?case
  proof (cases "n < 10")
    case True
    then show ?thesis by (subst str_nat.simps) simp
  next
    case False
    with Suc.prems have d: "0 < d" by (cases d) simp_all
    from Suc.prems have "n div 10 < 10 ^ d"
      by (simp add: less_mult_imp_div_less mult.commute)
    from Suc.IH [OF this d] False show ?thesis
      by (subst str_nat.simps) simp
  qed
qed



subsection \<open>Sanitizing a name that ends in plain characters\<close>

lemma digit_plain: "48 \<le> c \<Longrightarrow> c \<le> 57 \<Longrightarrow> \<not> is_space c \<and> \<not> forbidden c"
  by (auto simp: is_space_def forbidden_def)

lemma dropWhile_append_keep:
  "ys \<noteq> [] \<Longrightarrow> \<not> P (hd ys) \<Longrightarrow> dropWhile P (xs @ ys) = dropWhile P xs @ ys"
  by (induction xs) (auto simp: neq_Nil_conv)

lemma collapse_ws_plain: "\<forall>c \<in> set u. \<not> is_space c \<Longrightarrow> collapse_ws u = u"
  by (induction u) simp_all

lemma collapse_ws_append:
  assumes "u \<noteq> []" "\<forall>c \<in> set u. \<not> is_space c"
  shows "collapse_ws (a @ u) = collapse_ws a @ u"
proof (induction a rule: collapse_ws.induct)
  case 1
  from assms(2) show ?case by (simp add: collapse_ws_plain)
next
  case (2 c cs)
  from assms have "\<not> is_space (hd u)" by (cases u) simp_all
  with assms(1) have "dropWhile is_space (cs @ u) = dropWhile is_space cs @ u"
    by (rule dropWhile_append_keep)
  with 2 show ?case by simp
qed

lemma strip_append:
  assumes "u \<noteq> []" "\<forall>c \<in> set u. \<not> is_space c"
  shows "strip (a @ u) = dropWhile is_space a @ u"
proof -
  from assms have h: "\<not> is_space (hd u)" by (cases u) simp_all
  from assms have l: "\<not> is_space (hd (rev u))"
    by (simp add: hd_rev)
  have "dropWhile is_space (a @ u) = dropWhile is_space a @ u"
    using assms(1) h by (rule dropWhile_append_keep)
  moreover have "dropWhile is_space (rev u @ rev (dropWhile is_space a)) = rev u @ rev (dropWhile is_space a)"
    using assms(1) l by (cases "rev u") simp_all
  ultimately show ?thesis
    by (simp add: strip_def)
qed

lemma replace_forbidden_append:
  "\<forall>c \<in> set u. \<not> forbidden c \<Longrightarrow> replace_forbidden (a @ u) = replace_forbidden a @ u"
  by (simp add: replace_forbidden_def map_idI)

lemma sanitize_append:
  assumes "plain u"
  shows "sanitize_sheet_name (a @ u) = take 31 (lead a @ u)"
proof -
  from assms have u: "u \<noteq> []" "\<forall>c \<in> set u. \<not> is_space c" "\<forall>c \<in> set u. \<not> forbidden c"
    by (auto simp: plain_def)
  have "strip (collapse_ws (replace_forbidden (a @ u))) = lead a @ u"
    by (simp add: replace_forbidden_append [OF u(3)] collapse_ws_append [OF u(1,2)]
          strip_append [OF u(1,2)] lead_def)
  with u(1) show ?thesis
    by (simp add: sanitize_sheet_name_def)
qed

lemma sanitize_plain: "plain u \<Longrightarrow> sanitize_sheet_name u = take 31 u"
  using sanitize_append [of u "[]"] by (simp add: lead_def replace_forbidden_def)



lemma str_nat_plain: "c \<in> set (str_nat n) \<Longrightarrow> \<not> is_space c \<and> \<not> forbidden c"
  using str_nat_digits digit_plain by blast

lemma underscore_plain: "c \<in> set (lit ''_'') \<Longrightarrow> \<not> is_space c \<and> \<not> forbidden c"
  by (simp add: lit_def is_space_def forbidden_def)

lemma suffix_plain: "plain (lit ''_'' @ str_nat k)"
  using str_nat_plain underscore_plain by (auto simp: plain_def str_nat_nonempty)

lemma table_literals_plain:
  "c \<in> set (lit ''p'') \<or> c \<in> set (lit ''_tbl'') \<Longrightarrow> \<not> is_space c \<and> \<not> forbidden c"
  by (auto simp: lit_def is_space_def forbidden_def)

lemma table_sheet_name_plain: "plain (table_sheet_name i k)"
  using str_nat_plain table_literals_plain
  by (auto simp: plain_def table_sheet_name_def str_nat_nonempty)

subsection \<open>The renaming loop\<close>

lemma unique_sheet_fresh:
  "sheet \<notin> set names \<Longrightarrow> unique_sheet names base sheet suffix = Some sheet"
  by (subst unique_sheet.simps) simp







lemma unique_name_fresh:
  "sanitize_sheet_name candidate \<notin> set names \<Longrightarrow>
   unique_name names candidate = Some (sanitize_sheet_name candidate)"
  by (simp add: unique_name_def Let_def unique_sheet_fresh)



lemma long_name_suffixed:
  "sanitize_sheet_name (long_name @ lit ''_'' @ str_nat k) = long_name"
proof -
  have "lead long_name = long_name"
    by (simp add: lead_def long_name_def lit_def replace_forbidden_def forbidden_def is_space_def)
  moreover have "length long_name = 31"
    by (simp add: long_name_def lit_def)
  ultimately show ?thesis
    by (simp add: sanitize_append [OF suffix_plain])
qed

lemma unique_sheet_long_name_loops:
  assumes "unique_sheet names base sheet suffix = Some s"
  shows "\<not> (names = [long_name] \<and> base = long_name \<and> sheet = long_name)"
proof (rule unique_sheet.raw_induct
    [where P = "\<lambda>names base sheet suffix s.
       \<not> (names = [long_name] \<and> base = long_name \<and> sheet = long_name)", OF _ assms])
  fix f names base sheet suffix s
  assume IH: "\<And>names base sheet suffix s. f names base sheet suffix = Some s \<Longrightarrow>
      \<not> (names = [long_name] \<and> base = long_name \<and> sheet = long_name)"
    and eq: "(if sheet \<in> set names
         then f names base (sanitize_sheet_name (base @ lit ''_'' @ str_nat suffix)) (suffix + 1)
         else Some sheet) = Some s"
  show "\<not> (names = [long_name] \<and> base = long_name \<and> sheet = long_name)"
  proof
    assume a: "names = [long_name] \<and> base = long_name \<and> sheet = long_name"
    with eq have "f [long_name] long_name long_name (suffix + 1) = Some s"
      by (simp add: long_name_suffixed)
    from IH [OF this] show False by simp
  qed
qed

text \<open>
  The bound on the lengths is needed: for a candidate of 31 characters that is already
  among the names, every suffixed name is cut back to the candidate, and the loop does not
  return. The converter does not reach such a state, its candidates being the names
  \<^verbatim>\<open>p<i>_tbl<n>\<close>.
\<close>

lemma unique_name_long_name:
  "unique_name [long_name] long_name = None"
proof -
  have "sanitize_sheet_name long_name = long_name"
    by (simp add: sanitize_sheet_name_def long_name_def lit_def replace_forbidden_def
          forbidden_def is_space_def strip_def)
  moreover have "unique_sheet [long_name] long_name long_name 2 = None"
    using unique_sheet_long_name_loops [of "[long_name]" long_name long_name 2]
    by (cases "unique_sheet [long_name] long_name long_name 2") auto
  ultimately show ?thesis by (simp add: unique_name_def Let_def)
qed

section \<open>Properties of the document converter\<close>

subsection \<open>Table names\<close>

lemma split_at_separator:
  "a @ c # b = a' @ c # b' \<Longrightarrow> c \<notin> set a \<Longrightarrow> c \<notin> set a' \<Longrightarrow> a = a' \<and> b = b'"
proof (induction a arbitrary: a')
  case Nil
  then show ?case by (cases a') auto
next
  case (Cons x a)
  then show ?case by (cases a') auto
qed

lemma underscore_not_digit: "95 \<notin> set (str_nat n)"
  using str_nat_digits [of 95 n] by auto

lemma table_sheet_name_inj:
  assumes "table_sheet_name i k = table_sheet_name i' k'"
  shows "i = i' \<and> k = k'"
proof -
  from assms have "str_nat i @ 95 # (lit ''tbl'' @ str_nat k) = str_nat i' @ 95 # (lit ''tbl'' @ str_nat k')"
    by (simp add: table_sheet_name_def lit_def)
  from split_at_separator [OF this underscore_not_digit underscore_not_digit]
  have "str_nat i = str_nat i'" "str_nat k = str_nat k'" by simp_all
  then show ?thesis by (simp add: str_nat_inj)
qed

lemma length_table_sheet_name:
  "length (table_sheet_name i k) = 5 + length (str_nat i) + length (str_nat k)"
  by (simp add: table_sheet_name_def lit_def)

lemma table_sheet_name_kept:
  assumes "i < sheet_limit" "k < sheet_limit"
  shows "sanitize_sheet_name (table_sheet_name i k) = table_sheet_name i k"
proof -
  from assms have "length (str_nat i) \<le> 13" "length (str_nat k) \<le> 13"
    by (simp_all add: sheet_limit_def str_nat_length_le)
  then have "length (table_sheet_name i k) \<le> 31"
    by (simp add: length_table_sheet_name)
  then show ?thesis
    by (simp add: sanitize_plain [OF table_sheet_name_plain])
qed

lemma names_before_fresh:
  assumes "names_before i cnt names"
  shows "table_sheet_name i (cnt + 1) \<notin> set names"
proof
  assume "table_sheet_name i (cnt + 1) \<in> set names"
  with assms obtain i' k' where "table_sheet_name i (cnt + 1) = table_sheet_name i' k'"
    "i' < i \<or> (i' = i \<and> k' \<le> cnt)"
    unfolding names_before_def by blast
  then show False
    by (auto dest: table_sheet_name_inj)
qed

lemma names_before_snoc:
  "names_before i cnt names \<Longrightarrow> names_before i (cnt + 1) (names @ [table_sheet_name i (cnt + 1)])"
  unfolding names_before_def by fastforce

lemma names_before_next_page:
  "names_before i cnt names \<Longrightarrow> names_before (i + 1) 0 names"
  unfolding names_before_def by fastforce

subsection \<open>The loop over the tables of a page\<close>

lemma write_tables_Cons_noise:
  "is_noise (clean_table_data raw) \<Longrightarrow>
   write_tables parses accepts i (raw # rest) (st, cnt) = write_tables parses accepts i rest (st, cnt)"
  by simp

lemma write_tables_Cons_fresh:
  assumes "\<not> is_noise (clean_table_data raw)"
    and "sanitize_sheet_name (table_sheet_name i (cnt + 1)) \<notin> set (map fst (book st))"
  shows "write_tables parses accepts i (raw # rest) (st, cnt) =
     (if accepts (sanitize_sheet_name (table_sheet_name i (cnt + 1)),
                  build_frame parses (clean_table_data raw))
      then write_tables parses accepts i rest
        (st\<lparr>book := book st @ [(sanitize_sheet_name (table_sheet_name i (cnt + 1)),
                                 build_frame parses (clean_table_data raw))],
            tables_found := tables_found st + 1\<rparr>, cnt + 1)
      else Some (Inl Exception))"
  using assms by (simp add: Let_def unique_name_fresh to_excel_def)

lemma surviving_simps [simp]:
  "surviving [] = []"
  "surviving (raw # rest) =
     (if is_noise (clean_table_data raw) then surviving rest
      else clean_table_data raw # surviving rest)"
  by (simp_all add: surviving_def)

lemma write_tables_no_tables:
  "surviving tables = [] \<Longrightarrow>
   write_tables parses accepts i tables (st, cnt) = Some (Inr (st, cnt))"
  by (induction tables) (simp_all split: if_splits)

text \<open>
  Within the size limit every generated name is new and unchanged by the sanitizer, so the
  loop appends the table sheets as they are, up to the first sheet the writer refuses.
\<close>

lemma write_tables_fresh:
  assumes "i < sheet_limit"
  shows "names_before i cnt (map fst (book st)) \<Longrightarrow>
    cnt + length (surviving tables) < sheet_limit \<Longrightarrow>
    write_tables parses accepts i tables (st, cnt) =
      (if list_all accepts (table_sheets parses i cnt (surviving tables))
       then Some (Inr (st\<lparr>book := book st @ table_sheets parses i cnt (surviving tables),
                        tables_found := tables_found st + length (surviving tables)\<rparr>,
                      cnt + length (surviving tables)))
       else Some (Inl Exception))"
proof (induction tables arbitrary: st cnt)
  case Nil
  show ?case by simp
next
  case (Cons raw rest)
  show ?case
  proof (cases "is_noise (clean_table_data raw)")
    case True
    with Cons show ?thesis by simp
  next
    case False
    let ?name = "table_sheet_name i (cnt + 1)"
    let ?sheet = "(?name, build_frame parses (clean_table_data raw))"
    let ?st1 = "st\<lparr>book := book st @ [?sheet], tables_found := tables_found st + 1\<rparr>"
    from Cons.prems(2) False have k: "cnt + 1 < sheet_limit" by simp
    have kept: "sanitize_sheet_name ?name = ?name"
      using assms k by (rule table_sheet_name_kept)
    have fresh: "?name \<notin> set (map fst (book st))"
      using Cons.prems(1) by (rule names_before_fresh)
    have step: "write_tables parses accepts i (raw # rest) (st, cnt) =
        (if accepts ?sheet then write_tables parses accepts i rest (?st1, cnt + 1)
         else Some (Inl Exception))"
    proof -
      have "sanitize_sheet_name ?name \<notin> set (map fst (book st))"
        unfolding kept by (rule fresh)
      from write_tables_Cons_fresh [OF False this] show ?thesis
        unfolding kept .
    qed
    have inv: "names_before i (cnt + 1) (map fst (book ?st1))"
      using names_before_snoc [OF Cons.prems(1)] by simp
    have bound: "(cnt + 1) + length (surviving rest) < sheet_limit"
      using Cons.prems(2) False by simp
    show ?thesis
      unfolding step Cons.IH [OF inv bound]
      using False by simp
  qed
qed

subsection \<open>One page\<close>

lemma collect_text_fields [simp]:
  "book (collect_text i p st) = book st"
  "tables_found (collect_text i p st) = tables_found st"
  "text_rows (collect_text i p st) = text_rows st @ text_lines i (page_text p)"
  "ocr_pages (collect_text i p st) = ocr_pages st @ (if looks_scanned p then [i] else [])"
  by (simp_all add: collect_text_def Let_def)

lemma process_page_no_tables:
  "surviving_tables p = [] \<Longrightarrow>
   process_page parses accepts i p st = Some (Inr (collect_text i p st))"
  by (simp add: process_page_def surviving_tables_def write_tables_no_tables)

lemma page_result_no_tables:
  "surviving_tables p = [] \<Longrightarrow> page_result parses i p st = collect_text i p st"
  by (simp add: page_result_def)

lemma process_page_tables:
  assumes "i < sheet_limit" "length (surviving_tables p) < sheet_limit"
    and "names_before i 0 (map fst (book st))"
  shows "process_page parses accepts i p st =
     (if list_all accepts (table_sheets parses i 0 (surviving_tables p))
      then Some (Inr (page_result parses i p st)) else Some (Inl Exception))"
proof (cases "surviving_tables p = []")
  case True
  then show ?thesis
    by (simp add: process_page_no_tables page_result_no_tables)
next
  case False
  from assms(2) have "0 + length (surviving (extracted_tables p)) < sheet_limit"
    by (simp add: surviving_tables_def)
  from write_tables_fresh [OF assms(1) assms(3) this, of parses accepts]
  have "write_tables parses accepts i (extracted_tables p) (st, 0) =
      (if list_all accepts (table_sheets parses i 0 (surviving_tables p))
       then Some (Inr (st\<lparr>book := book st @ table_sheets parses i 0 (surviving_tables p),
               tables_found := tables_found st + length (surviving_tables p)\<rparr>,
            length (surviving_tables p)))
       else Some (Inl Exception))"
    by (simp add: surviving_tables_def)
  with False show ?thesis
    by (simp add: process_page_def page_result_def)
qed

lemma length_table_sheets [simp]: "length (table_sheets parses i cnt gs) = length gs"
  by (induction gs arbitrary: cnt) simp_all

lemma table_sheets_names:
  "names_before i cnt names \<Longrightarrow> distinct names \<Longrightarrow>
   names_before i (cnt + length gs) (names @ map fst (table_sheets parses i cnt gs))
   \<and> distinct (names @ map fst (table_sheets parses i cnt gs))"
proof (induction gs arbitrary: cnt names)
  case Nil
  then show ?case by simp
next
  case (Cons g gs)
  let ?n = "table_sheet_name i (cnt + 1)"
  have "names_before i (cnt + 1) (names @ [?n])"
    using Cons.prems(1) by (rule names_before_snoc)
  moreover have "distinct (names @ [?n])"
    using Cons.prems names_before_fresh by simp
  ultimately show ?case
    using Cons.IH [of "cnt + 1" "names @ [?n]"] by simp
qed

subsection \<open>The loop over the pages\<close>

lemma book_ok_initial: "book_ok i initial_state"
  by (simp add: book_ok_def initial_state_def names_before_def)

lemma page_result_book_ok:
  assumes "book_ok i st"
  shows "book_ok (i + 1) (page_result parses i p st)"
proof (cases "surviving_tables p = []")
  case True
  with assms show ?thesis
    by (auto simp: book_ok_def page_result_no_tables dest: names_before_next_page)
next
  case False
  from assms have "names_before i 0 (map fst (book st))" "distinct (map fst (book st))"
    by (simp_all add: book_ok_def)
  from table_sheets_names [OF this, of "surviving_tables p" parses] assms False
  show ?thesis
    by (auto simp: book_ok_def page_result_def dest: names_before_next_page)
qed

lemma page_result_book:
  "book (page_result parses i p st) = book st @ table_sheets parses i 0 (surviving_tables p)"
  by (simp add: page_result_def)

lemma pages_result_book:
  "book (pages_result parses i pages st) = book st @ new_sheets parses i pages"
  by (induction pages arbitrary: i st) (simp_all add: page_result_book)

lemma process_pages_result:
  assumes "\<forall>p \<in> set pages. length (surviving_tables p) < sheet_limit"
  shows "i + length pages \<le> sheet_limit \<Longrightarrow> book_ok i st \<Longrightarrow>
     process_pages parses accepts i pages st =
       (if list_all accepts (new_sheets parses i pages)
        then Some (Inr (pages_result parses i pages st)) else Some (Inl Exception))"
  using assms
proof (induction pages arbitrary: i st)
  case Nil
  show ?case by simp
next
  case (Cons p ps)
  from Cons.prems have "i < sheet_limit" "length (surviving_tables p) < sheet_limit"
    "names_before i 0 (map fst (book st))"
    by (simp_all add: book_ok_def)
  then have page: "process_page parses accepts i p st =
      (if list_all accepts (table_sheets parses i 0 (surviving_tables p))
       then Some (Inr (page_result parses i p st)) else Some (Inl Exception))"
    by (rule process_page_tables)
  have rest: "process_pages parses accepts (i + 1) ps (page_result parses i p st) =
      (if list_all accepts (new_sheets parses (i + 1) ps)
       then Some (Inr (pages_result parses (i + 1) ps (page_result parses i p st)))
       else Some (Inl Exception))"
    using Cons.prems by (intro Cons.IH page_result_book_ok) simp_all
  from rest show ?case
    by (simp add: page)
qed



subsection \<open>Runs that return\<close>








subsection \<open>The whole conversion\<close>

lemma convert_within_limit:
  assumes "length pages < sheet_limit" "\<forall>p \<in> set pages. length (surviving_tables p) < sheet_limit"
  shows "convert_pdf_to_excel_bytes parses accepts (Inr pages) =
     (if list_all accepts (new_sheets parses 1 pages)
      then Some (finish accepts (pages_result parses 1 pages initial_state))
      else Some (Inl Exception))"
proof -
  from assms(1) have "1 + length pages \<le> sheet_limit" by simp
  from process_pages_result [OF assms(2) this book_ok_initial, of parses accepts]
  show ?thesis by (simp add: convert_pdf_to_excel_bytes_def)
qed




subsection \<open>A document of three pages\<close>

lemmas normalizer_eval = clean_table_data_def drop_empty_rows_def max_len_def
  pad_rows_def cols_to_keep_def filled_def lit_def Let_def

lemma fruit_grid_clean: "clean_table_data fruit_grid = fruit_grid"
  by (simp add: fruit_grid_def normalizer_eval)

lemma surviving_two_table_page:
  "surviving_tables two_table_page = [fruit_grid, clean_table_data ragged_table]"
  by (simp add: surviving_tables_def two_table_page_def extracted_tables_def primary_tables_def
        fruit_grid_clean ragged_table_clean is_noise_def)
     (simp add: fruit_grid_def)

lemma surviving_fallback_page: "surviving_tables fallback_page = [fruit_grid]"
  by (simp add: surviving_tables_def fallback_page_def extracted_tables_def primary_tables_def
        fruit_grid_clean is_noise_def)
     (simp add: fruit_grid_def)

lemma surviving_narrative_page: "surviving_tables narrative_page = []"
  by (simp add: surviving_tables_def narrative_page_def extracted_tables_def primary_tables_def)

lemma narrative_page_not_scanned: "\<not> looks_scanned narrative_page"
  by (simp add: looks_scanned_def narrative_page_def)

lemma fruit_sheet:
  "build_frame ascii_digits fruit_grid =
     Labeled [lit ''Name'', lit ''Qty'']
       [[Some (lit ''Apple''), Some (lit ''3'')], [Some (lit ''Pear''), Some (lit ''5'')]]"
  by (simp add: build_frame_def infer_header_row_def fruit_grid_def filled_def lit_def
        is_number_def py_str_def remove_commas_def ascii_digits_def)

lemma ragged_sheet:
  "build_frame ascii_digits (clean_table_data ragged_table) =
     Unlabeled [[Some (lit ''a''), None], [Some [], Some (lit ''b'')]]"
  by (simp add: ragged_table_clean build_frame_def infer_header_row_def filled_def lit_def
        is_number_def py_str_def remove_commas_def ascii_digits_def)

lemma sample_sheets_accepted:
  "refuses_control_characters (name, build_frame ascii_digits fruit_grid)"
  "refuses_control_characters (name, build_frame ascii_digits (clean_table_data ragged_table))"
  by (simp_all add: fruit_sheet ragged_sheet refuses_control_characters_def control_character_def
        py_str_def lit_def)

lemma three_pages_sheets:
  assumes "surviving_tables p1 = [g1, g2]" "surviving_tables p2 = [g3]" "surviving_tables p3 = []"
    and "\<not> looks_scanned p3"
  shows "convert_pdf_to_excel_bytes parses accepts (Inr [p1, p2, p3]) =
     (if accepts (lit ''p1_tbl1'', build_frame parses g1)
         \<and> accepts (lit ''p1_tbl2'', build_frame parses g2)
         \<and> accepts (lit ''p2_tbl1'', build_frame parses g3)
      then Some (Inr [(lit ''p1_tbl1'', build_frame parses g1),
                      (lit ''p1_tbl2'', build_frame parses g2),
                      (lit ''p2_tbl1'', build_frame parses g3)])
      else Some (Inl Exception))"
proof -
  have names: "table_sheet_name 1 1 = lit ''p1_tbl1''" "table_sheet_name 1 2 = lit ''p1_tbl2''"
    "table_sheet_name 2 1 = lit ''p2_tbl1''"
    by (simp_all add: table_sheet_name_def str_nat.simps lit_def)
  have new: "new_sheets parses 1 [p1, p2, p3] =
      [(lit ''p1_tbl1'', build_frame parses g1), (lit ''p1_tbl2'', build_frame parses g2),
       (lit ''p2_tbl1'', build_frame parses g3)]"
    using assms names by (simp add: numeral_2_eq_2)
  have "length [p1, p2, p3] < sheet_limit"
    by (simp add: sheet_limit_def)
  moreover have "\<forall>p \<in> set [p1, p2, p3]. length (surviving_tables p) < sheet_limit"
    using assms(1-3) by (simp add: sheet_limit_def)
  ultimately have c: "convert_pdf_to_excel_bytes parses accepts (Inr [p1, p2, p3]) =
     (if list_all accepts (new_sheets parses 1 [p1, p2, p3])
      then Some (finish accepts (pages_result parses 1 [p1, p2, p3] initial_state))
      else Some (Inl Exception))"
    by (rule convert_within_limit)
  have f: "finish accepts (pages_result parses 1 [p1, p2, p3] initial_state) =
      Inr (new_sheets parses 1 [p1, p2, p3])"
    using assms by (simp add: page_result_def initial_state_def finish_def)
  show ?thesis
    unfolding c f new by simp
qed

text \<open>
  Claim C4, as amended. For a document of three pages where the first page yields two
  surviving tables, the second one, and the third none and does not look scanned, the
  workbook holds exactly the sheets \<^verbatim>\<open>p1_tbl1\<close>, \<^verbatim>\<open>p1_tbl2\<close> and \<^verbatim>\<open>p2_tbl1\<close> when the writer
  accepts them, and the conversion raises otherwise. There is no text sheet: the source
  writes it only when the whole document produced no table, so the lines collected from
  the third page are not written.
\<close>

theorem three_pages_tables_and_text:
  assumes "surviving_tables p1 = [g1, g2]" "surviving_tables p2 = [g3]" "surviving_tables p3 = []"
    and "\<not> looks_scanned p3"
  shows "convert_pdf_to_excel_bytes parses accepts (Inr [p1, p2, p3]) =
     (if accepts (lit ''p1_tbl1'', build_frame parses g1)
         \<and> accepts (lit ''p1_tbl2'', build_frame parses g2)
         \<and> accepts (lit ''p2_tbl1'', build_frame parses g3)
      then Some (Inr [(lit ''p1_tbl1'', build_frame parses g1),
                      (lit ''p1_tbl2'', build_frame parses g2),
                      (lit ''p2_tbl1'', build_frame parses g3)])
      else Some (Inl Exception))"
  using assms by (rule three_pages_sheets)

theorem three_pages_tables_and_text_witness:
  "convert_pdf_to_excel_bytes ascii_digits refuses_control_characters (Inr three_page_document) =
     Some (Inr [(lit ''p1_tbl1'', build_frame ascii_digits fruit_grid),
                (lit ''p1_tbl2'', build_frame ascii_digits (clean_table_data ragged_table)),
                (lit ''p2_tbl1'', build_frame ascii_digits fruit_grid)])"
  using three_pages_tables_and_text
        [OF surviving_two_table_page surviving_fallback_page surviving_narrative_page
            narrative_page_not_scanned, of ascii_digits refuses_control_characters]
  by (simp add: three_page_document_def sample_sheets_accepted)

text \<open>
  On the sample document the workbook has the three table sheets and no sheet named
  \<^verbatim>\<open>Text\<close>, although the third page contributed two text lines.
\<close>

theorem three_page_document_has_no_text_sheet:
  "\<exists>sheets. convert_pdf_to_excel_bytes ascii_digits refuses_control_characters
       (Inr three_page_document) = Some (Inr sheets)
     \<and> map fst sheets = [lit ''p1_tbl1'', lit ''p1_tbl2'', lit ''p2_tbl1'']
     \<and> lit ''Text'' \<notin> set (map fst sheets)
     \<and> text_lines 3 (page_text narrative_page) = [(3, lit ''Once upon''), (3, lit ''a time'')]"
proof -
  have "text_lines 3 (page_text narrative_page) = [(3, lit ''Once upon''), (3, lit ''a time'')]"
    by (simp add: text_lines_def page_text_def narrative_page_def lit_def strip_def is_space_def
          splitlines.simps is_linebreak_def)
  moreover have "convert_pdf_to_excel_bytes ascii_digits refuses_control_characters
      (Inr three_page_document) =
     Some (Inr [(lit ''p1_tbl1'', build_frame ascii_digits fruit_grid),
                (lit ''p1_tbl2'', build_frame ascii_digits (clean_table_data ragged_table)),
                (lit ''p2_tbl1'', build_frame ascii_digits fruit_grid)])"
    using three_pages_sheets
        [OF surviving_two_table_page surviving_fallback_page surviving_narrative_page
            narrative_page_not_scanned, of ascii_digits refuses_control_characters]
    by (simp add: three_page_document_def sample_sheets_accepted)
  ultimately show ?thesis
    by (simp add: lit_def)
qed

subsection \<open>Documents without tables\<close>




lemma broken_page_empty:
  "surviving_tables broken_page = []" "page_text broken_page = []" "\<not> looks_scanned broken_page"
  by (simp_all add: surviving_tables_def extracted_tables_def primary_tables_def page_text_def
        looks_scanned_def broken_page_def)

lemma text_lines_empty [simp]: "text_lines i [] = []"
  by (simp add: text_lines_def strip_def)





subsection \<open>Extraction errors\<close>

lemma extract_all_succeeds:
  "list_all (\<lambda>t. \<not> isl t) tbls \<Longrightarrow> extract_all tbls = Inr (map projr tbls)"
  by (induction tbls) (auto split: sum.splits)

lemma extract_all_fails: "list_ex isl tbls \<Longrightarrow> \<exists>e. extract_all tbls = Inl e"
  by (induction tbls) (auto split: sum.splits)

lemma primary_tables_fails:
  assumes "find_tables p = Inl e \<or> (find_tables p = Inr tbls \<and> list_ex isl tbls)"
  shows "\<exists>e. primary_tables p = Inl e"
  using assms extract_all_fails by (auto simp: primary_tables_def)

lemma extracted_tables_primary:
  assumes "find_tables p = Inr tbls" "list_all (\<lambda>t. \<not> isl t) tbls"
  shows "extracted_tables p = map projr tbls"
  using assms by (simp add: extracted_tables_def primary_tables_def extract_all_succeeds)

lemma extracted_tables_secondary:
  assumes "find_tables p = Inl e \<or> (find_tables p = Inr tbls \<and> list_ex isl tbls)"
  shows "extracted_tables p = (case extract_tables p of Inr ts \<Rightarrow> ts | Inl e' \<Rightarrow> [])"
  using primary_tables_fails [OF assms] by (auto simp: extracted_tables_def)

lemma process_pages_failed_page:
  assumes "find_tables p = Inl e \<or> (find_tables p = Inr tbls \<and> list_ex isl tbls)"
    and "extract_tables p = Inl e'"
  shows "process_page parses accepts i p st = Some (Inr (collect_text i p st))"
    and "process_pages parses accepts i (p # ps) st
         = process_pages parses accepts (i + 1) ps (collect_text i p st)"
proof -
  from extracted_tables_secondary [OF assms(1)] assms(2) have "surviving_tables p = []"
    by (simp add: surviving_tables_def)
  then show "process_page parses accepts i p st = Some (Inr (collect_text i p st))"
    by (rule process_page_no_tables)
  then show "process_pages parses accepts i (p # ps) st
         = process_pages parses accepts (i + 1) ps (collect_text i p st)"
    by simp
qed

text \<open>When the writer accepts every sheet, nothing raises once the document is open.\<close>

lemma write_tables_accepting:
  assumes "\<forall>sheet. accepts sheet"
  shows "write_tables parses accepts i tables (st, cnt) \<noteq> Some (Inl e)"
proof (induction tables arbitrary: st cnt)
  case Nil
  show ?case by simp
next
  case (Cons raw rest)
  show ?case
    using assms Cons.IH
    by (cases "unique_name (map fst (book st)) (table_sheet_name i (cnt + 1))")
       (simp_all add: Let_def to_excel_def)
qed

lemma process_page_accepting:
  assumes "\<forall>sheet. accepts sheet"
  shows "process_page parses accepts i p st \<noteq> Some (Inl e)"
  using write_tables_accepting [OF assms, of parses i "extracted_tables p" st 0]
  by (auto simp: process_page_def split: option.splits sum.splits)

lemma process_pages_accepting:
  assumes "\<forall>sheet. accepts sheet"
  shows "process_pages parses accepts i pages st \<noteq> Some (Inl e)"
proof (induction pages arbitrary: i st)
  case Nil
  show ?case by simp
next
  case (Cons p ps)
  show ?case
    using process_page_accepting [OF assms, of parses i p st] Cons.IH
    by (auto split: option.splits sum.splits)
qed

lemma finish_accepting:
  assumes "\<forall>sheet. accepts sheet"
  shows "finish accepts st \<noteq> Inl e"
  by (simp add: finish_def to_excel_def assms)

lemma convert_accepting:
  assumes "\<forall>sheet. accepts sheet"
  shows "convert_pdf_to_excel_bytes parses accepts (Inr pages) \<noteq> Some (Inl e)"
proof (cases "process_pages parses accepts 1 pages initial_state")
  case None
  then show ?thesis by (simp add: convert_pdf_to_excel_bytes_def)
next
  case (Some outcome)
  show ?thesis
  proof (cases outcome)
    case (Inl e')
    with Some process_pages_accepting [OF assms, of parses 1 pages initial_state e']
    show ?thesis by simp
  next
    case (Inr st)
    with Some finish_accepting [OF assms, of st e] show ?thesis
      by (simp add: convert_pdf_to_excel_bytes_def)
  qed
qed

lemma page_text_failed: "extract_text p = Inl e \<Longrightarrow> text_lines i (page_text p) = []"
  by (simp add: page_text_def)

text \<open>
  Claim C9. When \<open>find_tables\<close> and the \<open>extract\<close> of every table it found return, the
  tables of the page are the extracted ones. When \<open>find_tables\<close> raises, or the \<open>extract\<close>
  of one of its tables does, the tables of the page are those of \<open>extract_tables\<close>, and
  none when that raises too. A page on which both modes raise is handled as a page without
  tables, nothing is raised, and the loop goes on with the next page; a raising text
  extraction leaves the page without text lines. Once the document is open, nothing but
  a refused write raises: with a writer that accepts every sheet the conversion never
  ends in an exception.
\<close>

theorem extraction_errors_contained:
  "(find_tables p = Inr tbls \<and> list_all (\<lambda>t. \<not> isl t) tbls \<longrightarrow>
      extracted_tables p = map projr tbls)
   \<and> ((find_tables p = Inl e \<or> (find_tables p = Inr tbls \<and> list_ex isl tbls))
        \<and> extract_tables p = Inr ts \<longrightarrow> extracted_tables p = ts)
   \<and> ((find_tables p = Inl e \<or> (find_tables p = Inr tbls \<and> list_ex isl tbls))
        \<and> extract_tables p = Inl e' \<longrightarrow>
        extracted_tables p = []
        \<and> process_page parses accepts i p st = Some (Inr (collect_text i p st))
        \<and> process_pages parses accepts i (p # ps) st
            = process_pages parses accepts (i + 1) ps (collect_text i p st))
   \<and> (extract_text p = Inl e \<longrightarrow> text_lines i (page_text p) = [])
   \<and> ((\<forall>sheet. accepts sheet) \<longrightarrow>
        convert_pdf_to_excel_bytes parses accepts (Inr pages) \<noteq> Some (Inl e''))"
proof (intro conjI impI)
  assume "find_tables p = Inr tbls \<and> list_all (\<lambda>t. \<not> isl t) tbls"
  then show "extracted_tables p = map projr tbls"
    by (simp add: extracted_tables_primary)
next
  assume a: "(find_tables p = Inl e \<or> (find_tables p = Inr tbls \<and> list_ex isl tbls))
      \<and> extract_tables p = Inr ts"
  then have "find_tables p = Inl e \<or> (find_tables p = Inr tbls \<and> list_ex isl tbls)" by simp
  from extracted_tables_secondary [OF this] a show "extracted_tables p = ts" by simp
next
  assume a: "(find_tables p = Inl e \<or> (find_tables p = Inr tbls \<and> list_ex isl tbls))
      \<and> extract_tables p = Inl e'"
  then have f: "find_tables p = Inl e \<or> (find_tables p = Inr tbls \<and> list_ex isl tbls)"
    and s: "extract_tables p = Inl e'" by simp_all
  from extracted_tables_secondary [OF f] s show "extracted_tables p = []" by simp
  from f s show "process_page parses accepts i p st = Some (Inr (collect_text i p st))"
    by (rule process_pages_failed_page)
  from f s show "process_pages parses accepts i (p # ps) st
            = process_pages parses accepts (i + 1) ps (collect_text i p st)"
    by (rule process_pages_failed_page)
next
  assume "extract_text p = Inl e"
  then show "text_lines i (page_text p) = []" by (rule page_text_failed)
next
  assume "\<forall>sheet. accepts sheet"
  then show "convert_pdf_to_excel_bytes parses accepts (Inr pages) \<noteq> Some (Inl e'')"
    by (rule convert_accepting)
qed

lemma broken_then_fallback:
  "convert_pdf_to_excel_bytes ascii_digits refuses_control_characters
     (Inr [broken_page, fallback_page]) =
     Some (Inr [(lit ''p2_tbl1'', build_frame ascii_digits fruit_grid)])"
proof -
  have "length [broken_page, fallback_page] < sheet_limit"
    by (simp add: sheet_limit_def)
  moreover have "\<forall>p \<in> set [broken_page, fallback_page]. length (surviving_tables p) < sheet_limit"
    by (simp add: sheet_limit_def broken_page_empty surviving_fallback_page)
  ultimately have c: "convert_pdf_to_excel_bytes ascii_digits refuses_control_characters
      (Inr [broken_page, fallback_page]) =
      (if list_all refuses_control_characters (new_sheets ascii_digits 1 [broken_page, fallback_page])
       then Some (finish refuses_control_characters
              (pages_result ascii_digits 1 [broken_page, fallback_page] initial_state))
       else Some (Inl Exception))"
    by (rule convert_within_limit)
  have n: "new_sheets ascii_digits 1 [broken_page, fallback_page]
      = [(lit ''p2_tbl1'', build_frame ascii_digits fruit_grid)]"
    by (simp add: broken_page_empty surviving_fallback_page table_sheet_name_def
          str_nat.simps lit_def)
  have f: "finish refuses_control_characters
        (pages_result ascii_digits 1 [broken_page, fallback_page] initial_state)
      = Inr [(lit ''p2_tbl1'', build_frame ascii_digits fruit_grid)]"
    by (simp add: page_result_def broken_page_empty surviving_fallback_page initial_state_def
          finish_def table_sheet_name_def str_nat.simps lit_def collect_text_def)
  show ?thesis
    unfolding c n f by (simp add: sample_sheets_accepted)
qed

theorem extraction_errors_contained_witness:
  "extracted_tables two_table_page = [fruit_grid, ragged_table]
   \<and> extracted_tables failing_extract_page = [ragged_table]
   \<and> extracted_tables fallback_page = [fruit_grid]
   \<and> extracted_tables broken_page = []
   \<and> text_lines 1 (page_text broken_page) = []
   \<and> process_pages ascii_digits refuses_control_characters 1 [broken_page, fallback_page] initial_state
       = process_pages ascii_digits refuses_control_characters (1 + 1) [fallback_page]
           (collect_text 1 broken_page initial_state)
   \<and> convert_pdf_to_excel_bytes ascii_digits refuses_control_characters
       (Inr [broken_page, fallback_page]) =
       Some (Inr [(lit ''p2_tbl1'', build_frame ascii_digits fruit_grid)])
   \<and> convert_pdf_to_excel_bytes ascii_digits (\<lambda>sheet. True) (Inr [broken_page, fallback_page])
       \<noteq> Some (Inl Exception)"
proof -
  have t: "find_tables two_table_page = Inr [Inr fruit_grid, Inr ragged_table]
      \<and> list_all (\<lambda>t. \<not> isl t) [Inr fruit_grid, Inr ragged_table :: exn + row list]"
    by (simp add: two_table_page_def narrative_page_def)
  have x: "(find_tables failing_extract_page = Inl Exception
        \<or> (find_tables failing_extract_page = Inr [Inl Exception, Inr fruit_grid]
            \<and> list_ex isl [Inl Exception, Inr fruit_grid :: exn + row list]))
      \<and> extract_tables failing_extract_page = Inr [ragged_table]"
    by (simp add: failing_extract_page_def narrative_page_def)
  have f: "(find_tables fallback_page = Inl Exception
        \<or> (find_tables fallback_page = Inr [] \<and> list_ex isl ([] :: (exn + row list) list)))
      \<and> extract_tables fallback_page = Inr [fruit_grid]"
    by (simp add: fallback_page_def narrative_page_def)
  have b: "(find_tables broken_page = Inl Exception
        \<or> (find_tables broken_page = Inr [] \<and> list_ex isl ([] :: (exn + row list) list)))
      \<and> extract_tables broken_page = Inl Exception"
    "extract_text broken_page = Inl Exception"
    by (simp_all add: broken_page_def)
  from extraction_errors_contained
    [of two_table_page "[Inr fruit_grid, Inr ragged_table]"] t
  have "extracted_tables two_table_page = [fruit_grid, ragged_table]" by simp
  moreover from extraction_errors_contained
    [of failing_extract_page "[Inl Exception, Inr fruit_grid]" Exception "[ragged_table]"] x
  have "extracted_tables failing_extract_page = [ragged_table]" by blast
  moreover from extraction_errors_contained [of fallback_page "[]" Exception "[fruit_grid]"] f
  have "extracted_tables fallback_page = [fruit_grid]" by blast
  moreover from extraction_errors_contained
    [of broken_page "[]" Exception _ Exception ascii_digits refuses_control_characters 1
        initial_state "[fallback_page]"] b
  have "extracted_tables broken_page = []
    \<and> text_lines 1 (page_text broken_page) = []
    \<and> process_pages ascii_digits refuses_control_characters 1 [broken_page, fallback_page] initial_state
       = process_pages ascii_digits refuses_control_characters (1 + 1) [fallback_page]
           (collect_text 1 broken_page initial_state)"
    by blast
  moreover from extraction_errors_contained
    [where accepts = "\<lambda>sheet. True" and parses = ascii_digits
       and pages = "[broken_page, fallback_page]" and e'' = Exception]
  have "convert_pdf_to_excel_bytes ascii_digits (\<lambda>sheet. True) (Inr [broken_page, fallback_page])
       \<noteq> Some (Inl Exception)"
    by blast
  ultimately show ?thesis
    using broken_then_fallback by blast
qed

subsection \<open>Every conversion that returns has pairwise different sheet names\<close>











subsection \<open>Names for a sequence of candidates\<close>






section \<open>Properties of the scan detector\<close>

text \<open>
  Claim C8. \<open>looks_scanned\<close> is true exactly when the page answers with no words and with
  at least one image; when the query for the words or the query for the images raises,
  the result is false and nothing is raised.
\<close>

theorem looks_scanned_iff:
  "(looks_scanned p \<longleftrightarrow> extract_words p = Inr [] \<and> (\<exists>imgs. images p = Inr imgs \<and> imgs \<noteq> []))
   \<and> (\<forall>e. extract_words p = Inl e \<longrightarrow> \<not> looks_scanned p)
   \<and> (\<forall>e. images p = Inl e \<longrightarrow> \<not> looks_scanned p)"
  by (auto simp: looks_scanned_def split: sum.splits)

theorem looks_scanned_iff_witness:
  "looks_scanned scanned_page \<and> \<not> looks_scanned broken_page
   \<and> \<not> looks_scanned (scanned_page\<lparr>images := Inl Exception\<rparr>)"
proof -
  have a: "extract_words scanned_page = Inr [] \<and> (\<exists>imgs. images scanned_page = Inr imgs \<and> imgs \<noteq> [])"
    by (simp add: scanned_page_def)
  have b: "extract_words broken_page = Inl Exception"
    by (simp add: broken_page_def)
  have c: "images (scanned_page\<lparr>images := Inl Exception\<rparr>) = Inl Exception"
    by simp
  from looks_scanned_iff [of scanned_page] a have "looks_scanned scanned_page" by blast
  moreover from looks_scanned_iff [of broken_page] b have "\<not> looks_scanned broken_page" by blast
  moreover from looks_scanned_iff [of "scanned_page\<lparr>images := Inl Exception\<rparr>"] c
  have "\<not> looks_scanned (scanned_page\<lparr>images := Inl Exception\<rparr>)" by blast
  ultimately show ?thesis by simp
qed

end
